theory Spec2Isabelle
  imports Main "HOL-Library.Multiset" "HOL-Library.Char_ord" "HOL-Library.List_Lexorder"
begin

section \<open>Values, dictionaries and errors\<close>

text \<open>
  The NY Times source plugin (\<^verbatim>\<open>src/data_loader.py\<close>) reads a JSON envelope and a
  spreadsheet, flattens every article, joins it with the latest review row and hands the
  records out in batches.

  Python values are one datatype: what \<^verbatim>\<open>json.load\<close> returns (null, booleans,
  numbers, strings, lists, objects) together with the missing cell of a pandas frame
  (\<open>PNaN\<close>). Numbers are integers here; the algorithms below never compute with a
  number except to compare row ordinals. A \<^verbatim>\<open>dict\<close> is an association list in
  insertion order; a Python dict never holds a key twice, which is the representation
  invariant \<open>wf_val\<close> below.
\<close>

datatype pyval =
    PNone
  | PBool bool
  | PInt int
  | PNaN
  | PStr string
  | PList "pyval list"
  | PDict "(string \<times> pyval) list"

type_synonym dict = "(string \<times> pyval) list"

text \<open>The exceptions the modelled code can raise; \<open>IOError\<close> stands for any failure of
  opening or parsing one of the two files.\<close>

datatype error =
    NoArgumentsException
  | KeyError
  | TypeError
  | AttributeError
  | IndexError
  | ValueError
  | IOError

fun is_dict :: "pyval \<Rightarrow> bool" where
  "is_dict (PDict d) = True"
| "is_dict v = False"

text \<open>\<^verbatim>\<open>d[k] = v\<close>: an existing key keeps its position, a new key goes last.\<close>

fun setitem :: "dict \<Rightarrow> string \<Rightarrow> pyval \<Rightarrow> dict" where
  "setitem [] k v = [(k, v)]"
| "setitem ((k', v') # d) k v = (if k' = k then (k', v) # d else (k', v') # setitem d k v)"

text \<open>\<^verbatim>\<open>tmp[key]\<close> with a string key: \<^verbatim>\<open>KeyError\<close> on a dict without the key,
  \<^verbatim>\<open>TypeError\<close> on every other value (lists, strings, numbers and None are not
  subscriptable by a string).\<close>

fun getitem :: "pyval \<Rightarrow> string \<Rightarrow> error + pyval" where
  "getitem (PDict d) k = (case map_of d k of None \<Rightarrow> Inl KeyError | Some v \<Rightarrow> Inr v)"
| "getitem v k = Inl TypeError"

text \<open>\<^verbatim>\<open>key.split(".")\<close>: the empty string splits into one empty segment.\<close>

fun split_dot :: "string \<Rightarrow> string list" where
  "split_dot [] = [[]]"
| "split_dot (c # cs) =
     (if c = CHR ''.'' then [] # split_dot cs
      else (case split_dot cs of [] \<Rightarrow> [[c]] | w # ws \<Rightarrow> (c # w) # ws))"

section \<open>The flattener\<close>

text \<open>
  \<^verbatim>\<open>
  def _get_nested_data(self, data, path):
      _tmp = data
      for key in path:
          _tmp = _tmp[key]
      return _tmp
  \<close>
\<close>

fun get_nested_data :: "pyval \<Rightarrow> string list \<Rightarrow> error + pyval" where
  "get_nested_data tmp [] = Inr tmp"
| "get_nested_data tmp (key # path) =
     (case getitem tmp key of Inl e \<Rightarrow> Inl e | Inr v \<Rightarrow> get_nested_data v path)"

text \<open>
  \<^verbatim>\<open>
  def _flatten_dict(self, doc):
      flatten_doc = {}
      keys = doc.keys()
      go_deep = True
      while go_deep:
          go_deep = False
          nested_keys = []
          for key in keys:
              item = self._get_nested_data(doc, key.split("."))
              if not isinstance(item, dict):
                  flatten_doc[key] = item
                  continue
              nested_keys.extend([f"{key}.{ele}" for ele in item.keys()])
              go_deep = True
          keys = nested_keys
      return flatten_doc
  \<close>
  \<open>flatten_keys\<close> is the inner \<^verbatim>\<open>for\<close> loop over one frontier of keys, threading
  \<^verbatim>\<open>(flatten_doc, nested_keys, go_deep)\<close>; \<open>flatten_while\<close> is the outer loop.
  Every key is resolved again from the root of the document by splitting it at the dots.
\<close>

fun flatten_keys :: "pyval \<Rightarrow> string list \<Rightarrow> dict \<times> string list \<times> bool
    \<Rightarrow> error + (dict \<times> string list \<times> bool)" where
  "flatten_keys doc [] st = Inr st"
| "flatten_keys doc (key # keys) (flatten_doc, nested_keys, go_deep) =
     (case get_nested_data doc (split_dot key) of
        Inl e \<Rightarrow> Inl e
      | Inr item \<Rightarrow>
          (case item of
             PDict d \<Rightarrow>
               flatten_keys doc keys
                 (flatten_doc, nested_keys @ map (\<lambda>ele. key @ ''.'' @ ele) (map fst d), True)
           | _ \<Rightarrow> flatten_keys doc keys (setitem flatten_doc key item, nested_keys, go_deep)))"

text \<open>The outer loop always ends: a key that resolves to a dict has fewer segments than
  the document is deep, and every child key has more segments than its parent. \<open>slack\<close>
  is the measure of one key, the loop's measure is the largest slack of the frontier.\<close>

fun depth :: "pyval \<Rightarrow> nat" where
  "depth (PDict d) = Suc (fold max (map (\<lambda>kv. depth (snd kv)) d) 0)"
| "depth v = 0"

definition slack :: "pyval \<Rightarrow> string \<Rightarrow> nat" where
  "slack doc key = Suc (depth doc) - length (split_dot key)"

function flatten_while :: "pyval \<Rightarrow> string list \<Rightarrow> dict \<Rightarrow> error + dict" where
  "flatten_while doc keys flatten_doc =
     (case flatten_keys doc keys (flatten_doc, [], False) of
        Inl e \<Rightarrow> Inl e
      | Inr (flatten_doc', nested_keys, go_deep) \<Rightarrow>
          if go_deep then flatten_while doc nested_keys flatten_doc' else Inr flatten_doc')"
  by pat_completeness auto

lemma fold_max_start: "(a::nat) \<le> fold max xs a"
  by (induction xs arbitrary: a) (auto intro: order_trans [OF max.cobounded2])

lemma fold_max_ge: "x \<in> set xs \<Longrightarrow> (x::nat) \<le> fold max xs a"
proof (induction xs arbitrary: a)
  case Nil
  then show ?case by simp
next
  case (Cons y ys)
  show ?case
  proof (cases "x = y")
    case True
    have "x \<le> max y a" using True by simp
    also have "\<dots> \<le> fold max ys (max y a)" by (rule fold_max_start)
    finally show ?thesis by simp
  next
    case False
    with Cons show ?thesis by simp
  qed
qed

lemma fold_max_less: "\<forall>x\<in>set xs. x < m \<Longrightarrow> a < m \<Longrightarrow> fold max xs (a::nat) < m"
  by (induction xs arbitrary: a) auto

lemma depth_child: "map_of d k = Some v \<Longrightarrow> depth v < depth (PDict d)"
proof -
  assume "map_of d k = Some v"
  then have "(k, v) \<in> set d" by (rule map_of_SomeD)
  then have "depth v \<in> set (map (\<lambda>kv. depth (snd kv)) d)" by force
  then have "depth v \<le> fold max (map (\<lambda>kv. depth (snd kv)) d) 0" by (rule fold_max_ge)
  then show ?thesis by simp
qed

lemma getitem_depth: "getitem v k = Inr w \<Longrightarrow> depth w < depth v"
  by (cases v) (auto split: option.splits dest: depth_child)

lemma get_nested_data_depth:
  "get_nested_data v path = Inr w \<Longrightarrow> length path + depth w \<le> depth v"
proof (induction path arbitrary: v)
  case Nil
  then show ?case by simp
next
  case (Cons key path)
  then obtain u where u: "getitem v key = Inr u" and r: "get_nested_data u path = Inr w"
    by (auto split: sum.splits)
  from Cons.IH [OF r] getitem_depth [OF u] show ?case by simp
qed

lemma split_dot_not_Nil: "split_dot s \<noteq> []"
  by (induction s) (auto split: list.splits)

lemma split_dot_append: "split_dot (a @ CHR ''.'' # b) = split_dot a @ split_dot b"
proof (induction a)
  case Nil
  then show ?case by simp
next
  case (Cons c cs)
  then show ?case using split_dot_not_Nil [of cs] by (auto split: list.splits)
qed

lemma length_split_dot_child:
  "length (split_dot key) < length (split_dot (key @ ''.'' @ ele))"
  using split_dot_not_Nil [of ele] by (simp add: split_dot_append)

lemma flatten_keys_nested:
  "flatten_keys doc keys (flat, nested, deep) = Inr (flat', nested', deep') \<Longrightarrow>
   c \<in> set nested' \<Longrightarrow>
   c \<in> set nested \<or>
   (\<exists>p d ele. p \<in> set keys \<and> get_nested_data doc (split_dot p) = Inr (PDict d) \<and>
      c = p @ ''.'' @ ele)"
proof (induction keys arbitrary: flat nested deep)
  case Nil
  then show ?case by simp
next
  case (Cons key keys)
  show ?case
  proof (cases "get_nested_data doc (split_dot key)")
    case (Inl e)
    with Cons.prems show ?thesis by simp
  next
    case (Inr item)
    show ?thesis
    proof (cases "is_dict item")
      case True
      then obtain d where d: "item = PDict d" by (cases item) auto
      with Inr Cons.prems have
        "flatten_keys doc keys (flat, nested @ map (\<lambda>ele. key @ ''.'' @ ele) (map fst d), True)
           = Inr (flat', nested', deep')" by simp
      from Cons.IH [OF this Cons.prems(2)] Inr d show ?thesis by auto
    next
      case False
      with Inr Cons.prems have
        "flatten_keys doc keys (setitem flat key item, nested, deep) = Inr (flat', nested', deep')"
        by (cases item) auto
      from Cons.IH [OF this Cons.prems(2)] show ?thesis by auto
    qed
  qed
qed

lemma flatten_keys_go_deep:
  "flatten_keys doc keys (flat, nested, deep) = Inr (flat', nested', deep') \<Longrightarrow> deep' \<Longrightarrow>
   deep \<or> (\<exists>p d. p \<in> set keys \<and> get_nested_data doc (split_dot p) = Inr (PDict d))"
proof (induction keys arbitrary: flat nested deep)
  case Nil
  then show ?case by simp
next
  case (Cons key keys)
  show ?case
  proof (cases "get_nested_data doc (split_dot key)")
    case (Inl e)
    with Cons.prems show ?thesis by simp
  next
    case (Inr item)
    show ?thesis
    proof (cases "is_dict item")
      case True
      then obtain d where d: "item = PDict d" by (cases item) auto
      with Inr show ?thesis by auto
    next
      case False
      with Inr Cons.prems have
        "flatten_keys doc keys (setitem flat key item, nested, deep) = Inr (flat', nested', deep')"
        by (cases item) auto
      from Cons.IH [OF this Cons.prems(2)] show ?thesis by auto
    qed
  qed
qed

lemma slack_parent:
  assumes "get_nested_data doc (split_dot p) = Inr (PDict d)"
  shows "slack doc (p @ ''.'' @ ele) < slack doc p"
proof -
  from get_nested_data_depth [OF assms] have "length (split_dot p) < depth doc" by simp
  with length_split_dot_child [of p ele] show ?thesis unfolding slack_def by linarith
qed

lemma flatten_round_decreases:
  assumes "flatten_keys doc keys (flat, [], False) = Inr (flat', nested, True)"
  shows "fold max (map (slack doc) nested) 0 < fold max (map (slack doc) keys) 0"
proof (rule fold_max_less)
  from flatten_keys_go_deep [OF assms] obtain p d
    where p: "p \<in> set keys" "get_nested_data doc (split_dot p) = Inr (PDict d)" by auto
  have "slack doc (p @ ''.'' @ []) < slack doc p" using p(2) by (rule slack_parent)
  then have "0 < slack doc p" by simp
  also have "slack doc p \<le> fold max (map (slack doc) keys) 0"
    using p(1) by (intro fold_max_ge) simp
  finally show "0 < fold max (map (slack doc) keys) 0" .
  show "\<forall>x\<in>set (map (slack doc) nested). x < fold max (map (slack doc) keys) 0"
  proof
    fix x assume "x \<in> set (map (slack doc) nested)"
    then obtain c where c: "c \<in> set nested" "x = slack doc c" by auto
    from flatten_keys_nested [OF assms c(1)] obtain q d' ele
      where q: "q \<in> set keys" "get_nested_data doc (split_dot q) = Inr (PDict d')"
        "c = q @ ''.'' @ ele" by auto
    have "x < slack doc q" using c(2) q(3) slack_parent [OF q(2)] by simp
    also have "slack doc q \<le> fold max (map (slack doc) keys) 0"
      using q(1) by (intro fold_max_ge) simp
    finally show "x < fold max (map (slack doc) keys) 0" .
  qed
qed

termination flatten_while
proof (relation "measure (\<lambda>(doc, keys, flat). fold max (map (slack doc) keys) 0)", goal_cases)
  case 1
  show ?case by simp
next
  case (2 doc keys flatten_doc x2 x1a x2a x1b x2b)
  then have "flatten_keys doc keys (flatten_doc, [], False) = Inr (x1a, x1b, True)" by simp
  from flatten_round_decreases [OF this] show ?case by simp
qed

declare flatten_while.simps [simp del]

text \<open>\<^verbatim>\<open>doc.keys()\<close> raises \<^verbatim>\<open>AttributeError\<close> on a value that is not a dict.\<close>

fun flatten_dict :: "pyval \<Rightarrow> error + dict" where
  "flatten_dict (PDict d) = flatten_while (PDict d) (map fst d) []"
| "flatten_dict v = Inl AttributeError"


section \<open>The combined reference table\<close>

text \<open>
  The joiner receives the outer merge of the two sheets as a pandas frame. The frame is
  modelled by its column labels and its rows of cells; its row labels are the positions
  \<open>0, 1, ...\<close>, as they are in the result of \<^verbatim>\<open>DataFrame.merge\<close>. Reading the
  sheets and merging them is the work of pandas and is taken as given (\<open>excel_files\<close>
  below).
\<close>

record frame =
  columns :: "string list"
  rows :: "pyval list list"

definition wf_frame :: "frame \<Rightarrow> bool" where
  "wf_frame f \<longleftrightarrow> list_all (\<lambda>r. length r = length (columns f)) (rows f)"

text \<open>\<^verbatim>\<open>excel_data[name]\<close>: the cells of one column, \<^verbatim>\<open>KeyError\<close> without it.\<close>

fun column_index :: "string list \<Rightarrow> string \<Rightarrow> nat option" where
  "column_index [] c = None"
| "column_index (x # xs) c = (if x = c then Some 0 else map_option Suc (column_index xs c))"

definition get_column :: "frame \<Rightarrow> string \<Rightarrow> error + pyval list" where
  "get_column f c =
     (case column_index (columns f) c of
        None \<Rightarrow> Inl KeyError
      | Some i \<Rightarrow> Inr (map (\<lambda>r. r ! i) (rows f)))"

fun is_list :: "pyval \<Rightarrow> bool" where
  "is_list (PList xs) = True"
| "is_list v = False"

text \<open>
  \<^verbatim>\<open>excel_data["Article Id"] == article_id\<close> compares cell by cell. A missing cell and
  \<^verbatim>\<open>None\<close> equal nothing; \<^verbatim>\<open>True\<close> and \<^verbatim>\<open>False\<close> equal 1 and 0. Against a list
  pandas compares position by position and raises \<^verbatim>\<open>ValueError\<close> when the lengths
  differ. A dict-valued identifier cannot reach the joiner, since the flattener emits no
  dict.
\<close>

fun cell_eq :: "pyval \<Rightarrow> pyval \<Rightarrow> bool" where
  "cell_eq (PStr s) (PStr t) = (s = t)"
| "cell_eq (PInt n) (PInt m) = (n = m)"
| "cell_eq (PInt n) (PBool b) = (n = (if b then 1 else 0))"
| "cell_eq (PBool a) (PInt m) = ((if a then 1 else 0) = m)"
| "cell_eq (PBool a) (PBool b) = (a = b)"
| "cell_eq c v = False"

fun series_eq :: "pyval list \<Rightarrow> pyval option \<Rightarrow> error + bool list" where
  "series_eq col None = Inr (map (\<lambda>c. False) col)"
| "series_eq col (Some (PList xs)) =
     (if length xs = length col then Inr (map2 cell_eq col xs) else Inl ValueError)"
| "series_eq col (Some v) = Inr (map (\<lambda>c. cell_eq c v) col)"

text \<open>\<^verbatim>\<open>series[selection]\<close>: the selected entries with the labels they had.\<close>

definition boolean_index :: "bool list \<Rightarrow> 'a list \<Rightarrow> (nat \<times> 'a) list" where
  "boolean_index sel xs = map snd (filter fst (zip sel (enumerate 0 xs)))"

text \<open>
  \<^verbatim>\<open>Series.idxmax()\<close>: the label of the first occurrence of the maximum, missing
  cells skipped; \<^verbatim>\<open>ValueError\<close> on an empty selection. The selected cells are compared
  as Python compares them: integers and booleans by value (\<^verbatim>\<open>False\<close> is 0, \<^verbatim>\<open>True\<close>
  is 1), strings with strings in the order of their code points, which is the order of
  their UTF-8 bytes. A selection that mixes strings with numbers or missing cells cannot
  be compared and raises \<^verbatim>\<open>TypeError\<close>. On a selection of missing cells only the result
  is NaN (\<open>None\<close> here), which \<^verbatim>\<open>iloc\<close> then rejects with \<^verbatim>\<open>TypeError\<close>. This is
  pandas 2.2; pandas 3 raises \<^verbatim>\<open>ValueError\<close> on a selection of missing cells only.
  \<open>numeric_cell\<close> holds of the cells of a column of integers with missing cells.
\<close>

fun numeric_cell :: "pyval \<Rightarrow> bool" where
  "numeric_cell (PInt n) = True"
| "numeric_cell PNaN = True"
| "numeric_cell v = False"

fun num_key :: "pyval \<Rightarrow> int option" where
  "num_key (PInt n) = Some n"
| "num_key (PBool b) = Some (if b then 1 else 0)"
| "num_key v = None"

fun str_key :: "pyval \<Rightarrow> string option" where
  "str_key (PStr x) = Some x"
| "str_key v = None"

fun first_max :: "(pyval \<Rightarrow> 'k::linorder option) \<Rightarrow> (nat \<times> pyval) list \<Rightarrow> (nat \<times> 'k) option" where
  "first_max key [] = None"
| "first_max key (p # xs) =
     (case key (snd p) of
        None \<Rightarrow> first_max key xs
      | Some a \<Rightarrow>
          (case first_max key xs of
             None \<Rightarrow> Some (fst p, a)
           | Some (j, b) \<Rightarrow> if a < b then Some (j, b) else Some (fst p, a)))"

definition idxmax :: "(nat \<times> pyval) list \<Rightarrow> error + nat option" where
  "idxmax s =
     (if s = [] then Inl ValueError
      else if list_all (\<lambda>p. snd p = PNaN \<or> num_key (snd p) \<noteq> None) s
        then Inr (map_option fst (first_max num_key s))
      else if list_all (\<lambda>p. str_key (snd p) \<noteq> None) s
        then Inr (map_option fst (first_max str_key s))
      else Inl TypeError)"

definition iloc :: "frame \<Rightarrow> nat option \<Rightarrow> error + pyval list" where
  "iloc f label =
     (case label of
        None \<Rightarrow> Inl TypeError
      | Some p \<Rightarrow> if p < length (rows f) then Inr (rows f ! p) else Inl IndexError)"

text \<open>\<^verbatim>\<open>key.lower().replace(" ", "_")\<close>, on ASCII column labels.\<close>

definition lower_char :: "char \<Rightarrow> char" where
  "lower_char c =
     (case map_of (zip ''ABCDEFGHIJKLMNOPQRSTUVWXYZ'' ''abcdefghijklmnopqrstuvwxyz'') c of
        None \<Rightarrow> c
      | Some l \<Rightarrow> l)"

definition normalize_key :: "string \<Rightarrow> string" where
  "normalize_key key = map (\<lambda>c. if c = CHR '' '' then CHR ''_'' else c) (map lower_char key)"

text \<open>\<^verbatim>\<open>d.update(other)\<close> assigns the items of \<open>other\<close> in order; a dict comprehension
  and \<^verbatim>\<open>Series.to_dict()\<close> build a dict the same way from nothing.\<close>

definition dict_update :: "dict \<Rightarrow> (string \<times> pyval) list \<Rightarrow> dict" where
  "dict_update d other = fold (\<lambda>kv acc. setitem acc (fst kv) (snd kv)) other d"

definition to_dict :: "frame \<Rightarrow> pyval list \<Rightarrow> dict" where
  "to_dict f series = dict_update [] (zip (columns f) series)"

definition normalized_row :: "frame \<Rightarrow> pyval list \<Rightarrow> dict" where
  "normalized_row f series =
     dict_update [] (map (\<lambda>kv. (normalize_key (fst kv), snd kv)) (to_dict f series))"

text \<open>
  \<^verbatim>\<open>
  def _match_by_review_status(self, doc, excel_data):
      article_id = doc.get("_id")
      filtered_data = excel_data[excel_data["Article Id"] == article_id]
      series = excel_data.iloc[filtered_data["Row"].idxmax()]
      doc.update({key.lower().replace(" ", "_"): value
                  for key, value in series.to_dict().items()})
      return doc
  \<close>
  \<open>match_by_review_status\<close> computes the contents of \<^verbatim>\<open>doc\<close> after the call, which
  is also what the call returns.
\<close>

definition match_by_review_status :: "dict \<Rightarrow> frame \<Rightarrow> error + dict" where
  "match_by_review_status doc excel_data =
     (let article_id = map_of doc ''_id'' in
      case get_column excel_data ''Article Id'' of
        Inl e \<Rightarrow> Inl e
      | Inr ids \<Rightarrow>
      (case series_eq ids article_id of
        Inl e \<Rightarrow> Inl e
      | Inr sel \<Rightarrow>
      (case get_column excel_data ''Row'' of
        Inl e \<Rightarrow> Inl e
      | Inr ords \<Rightarrow>
      (case idxmax (boolean_index sel ords) of
        Inl e \<Rightarrow> Inl e
      | Inr label \<Rightarrow>
      (case iloc excel_data label of
        Inl e \<Rightarrow> Inl e
      | Inr series \<Rightarrow> Inr (dict_update doc (normalized_row excel_data series)))))))"


section \<open>The source object, its generators and the files it reads\<close>

text \<open>
  The same call on a store of objects, for what it does to its arguments: \<open>doc\<close> and
  \<open>excel_data\<close> are references, \<^verbatim>\<open>doc.update(...)\<close> writes into the object \<open>doc\<close>
  refers to, and \<^verbatim>\<open>return doc\<close> returns that reference. Indexing, \<^verbatim>\<open>idxmax\<close>,
  \<^verbatim>\<open>iloc\<close> and \<^verbatim>\<open>to_dict\<close> build new objects and write nothing to the frame.
\<close>

record heap =
  dicts :: "nat \<Rightarrow> dict"
  frames :: "nat \<Rightarrow> frame"

definition match_by_review_status_store :: "heap \<Rightarrow> nat \<Rightarrow> nat \<Rightarrow> (error + nat) \<times> heap" where
  "match_by_review_status_store h doc_ref table_ref =
     (case match_by_review_status (dicts h doc_ref) (frames h table_ref) of
        Inl e \<Rightarrow> (Inl e, h)
      | Inr merged \<Rightarrow> (Inr doc_ref, h\<lparr>dicts := (dicts h)(doc_ref := merged)\<rparr>))"

text \<open>
  \<open>args\<close> is the namespace the caller assigns, \<open>schema\<close> and \<open>docs\<close> are the two
  memo fields. \<open>docs\<close> holds the suspended generator of \<^verbatim>\<open>_docs_generator\<close>: the raw
  documents it has not reached yet and the frame it closes over. The two files are read
  through \<open>env\<close>, which gives for a path the parsed JSON value, or the merged frame, or
  the error of reading it.
\<close>

record config =
  api_response_file :: string
  reference_data_file :: string

record docs_gen =
  pending :: "pyval list"
  excel_data :: frame

record source =
  args :: "config option"
  schema :: "string list option"
  docs :: "docs_gen option"

record env =
  json_files :: "string \<Rightarrow> error + pyval"
  excel_files :: "string \<Rightarrow> error + frame"

datatype 'a pulled = Yield 'a | StopIteration | Raise error

text \<open>
  \<^verbatim>\<open>
  def _docs_generator(self, docs, excel_data):
      for doc in docs:
          doc = self._flatten_dict(doc)
          doc = self._match_by_review_status(doc, excel_data)
          yield doc
  \<close>
  One \<^verbatim>\<open>next\<close> of the generator; a generator that raised is finished.
\<close>

definition reconcile :: "frame \<Rightarrow> pyval \<Rightarrow> error + dict" where
  "reconcile table doc =
     (case flatten_dict doc of
        Inl e \<Rightarrow> Inl e
      | Inr flat \<Rightarrow> match_by_review_status flat table)"

definition docs_generator_next :: "docs_gen \<Rightarrow> dict pulled \<times> docs_gen" where
  "docs_generator_next g =
     (case pending g of
        [] \<Rightarrow> (StopIteration, g)
      | doc # rest \<Rightarrow>
          (case reconcile (excel_data g) doc of
             Inl e \<Rightarrow> (Raise e, g\<lparr>pending := []\<rparr>)
           | Inr r \<Rightarrow> (Yield r, g\<lparr>pending := rest\<rparr>)))"

text \<open>
  \<^verbatim>\<open>
  def _check_args(self):
      if self.args is None:
          raise NoArgumentsException(...)

  def _load_data(self):
      if self._docs is not None:
          return
      with open(self.args.api_response_file, encoding='utf-8') as json_file:
          data = json.load(json_file)
      docs = self._get_nested_data(data, self._response_docs)
      review_status = Excel(...); date_completed = Excel(...)
      excel_data = review_status.data_frame.merge(date_completed.data_frame, ...)
      self._schema = list(self._match_by_review_status(
          self._flatten_dict(docs[0]), excel_data).keys())
      self._docs = self._docs_generator(docs, excel_data)
  \<close>
  \<^verbatim>\<open>docs[0]\<close> is the first element of a list, \<^verbatim>\<open>IndexError\<close> on an empty list or
  string, \<^verbatim>\<open>KeyError\<close> on a dict (its keys are strings), \<^verbatim>\<open>TypeError\<close> on a number
  or null; the first character of a string is a string, on which the flattener raises
  \<^verbatim>\<open>AttributeError\<close>. Both fields are assigned only when everything before succeeded.
\<close>

text \<open>The outcomes of \<open>n\<close> successive \<^verbatim>\<open>next\<close> calls on the generator.\<close>

fun docs_outcomes :: "nat \<Rightarrow> docs_gen \<Rightarrow> dict pulled list" where
  "docs_outcomes 0 g = []"
| "docs_outcomes (Suc n) g =
     (case docs_generator_next g of (out, g') \<Rightarrow> out # docs_outcomes n g')"

text \<open>What the generator gives when the joiner's and the flattener's results are taken
  document by document: the record of every document up to the first one that fails, and
  the error of that one.\<close>

fun expected_outcomes :: "frame \<Rightarrow> pyval list \<Rightarrow> dict pulled list" where
  "expected_outcomes table [] = []"
| "expected_outcomes table (doc # rest) =
     (case flatten_dict doc of
        Inl e \<Rightarrow> [Raise e]
      | Inr flat \<Rightarrow>
          (case match_by_review_status flat table of
             Inl e \<Rightarrow> [Raise e]
           | Inr r \<Rightarrow> Yield r # expected_outcomes table rest))"

definition check_args :: "source \<Rightarrow> error + unit" where
  "check_args s = (case args s of None \<Rightarrow> Inl NoArgumentsException | Some a \<Rightarrow> Inr ())"

definition load_data :: "env \<Rightarrow> source \<Rightarrow> error + source" where
  "load_data world s =
     (case docs s of
        Some g \<Rightarrow> Inr s
      | None \<Rightarrow>
      (case args s of
        None \<Rightarrow> Inl AttributeError
      | Some a \<Rightarrow>
      (case json_files world (api_response_file a) of
        Inl e \<Rightarrow> Inl e
      | Inr data \<Rightarrow>
      (case get_nested_data data [''response'', ''docs''] of
        Inl e \<Rightarrow> Inl e
      | Inr ds \<Rightarrow>
      (case excel_files world (reference_data_file a) of
        Inl e \<Rightarrow> Inl e
      | Inr table \<Rightarrow>
      (case ds of
        PList [] \<Rightarrow> Inl IndexError
      | PList (d0 # rest) \<Rightarrow>
          (case reconcile table d0 of
             Inl e \<Rightarrow> Inl e
           | Inr r \<Rightarrow>
               Inr (s\<lparr>schema := Some (map fst r),
                      docs := Some \<lparr>pending = d0 # rest, excel_data = table\<rparr>\<rparr>))
      | PStr [] \<Rightarrow> Inl IndexError
      | PStr (c # cs) \<Rightarrow> Inl AttributeError
      | PDict d \<Rightarrow> Inl KeyError
      | _ \<Rightarrow> Inl TypeError))))))"

text \<open>
  \<^verbatim>\<open>
  def _load_schema(self):
      if self._schema is not None:
          return
      self._load_data()

  def getSchema(self):
      self._check_args()
      self._load_schema()
      return self._schema
  \<close>
\<close>

definition load_schema :: "env \<Rightarrow> source \<Rightarrow> error + source" where
  "load_schema world s = (case schema s of Some sch \<Rightarrow> Inr s | None \<Rightarrow> load_data world s)"

definition getSchema :: "env \<Rightarrow> source \<Rightarrow> (error + string list option) \<times> source" where
  "getSchema world s =
     (case check_args s of
        Inl e \<Rightarrow> (Inl e, s)
      | Inr u \<Rightarrow>
          (case load_schema world s of
             Inl e \<Rightarrow> (Inl e, s)
           | Inr s' \<Rightarrow> (Inr (schema s'), s')))"

text \<open>
  \<^verbatim>\<open>
  def getDataBatch(self, batch_size):
      self._check_args()
      self._load_data()
      while True:
          results = []
          try:
              for _ in range(batch_size):
                  doc = next(self._docs)
                  results.append(doc)
          except StopIteration:
              if results:
                  yield results
              break
          yield results
  \<close>
  \<^verbatim>\<open>getDataBatch\<close> is a generator function: calling it runs nothing, and its body starts
  at the first \<^verbatim>\<open>next\<close>. \<open>batch_state\<close> is where the generator is suspended:
  \<open>Created\<close> before the first \<^verbatim>\<open>next\<close>, \<open>Looping\<close> at the \<^verbatim>\<open>yield\<close> that ends the
  loop body, \<open>Exhausted\<close> at the \<^verbatim>\<open>yield\<close> of the handler, \<open>Finished\<close> after it
  returned or raised. \<open>take_batch\<close> is the \<^verbatim>\<open>for\<close> loop (\<^verbatim>\<open>range\<close> of a number
  below 1 is empty), \<open>getDataBatch_next\<close> one \<^verbatim>\<open>next\<close>, and \<open>iterate\<close> a consumer
  that pulls until the generator stops or raises, at most \<open>fuel\<close> times.
\<close>

datatype batch_state = Created | Looping | Exhausted | Finished

fun take_batch :: "nat \<Rightarrow> docs_gen \<Rightarrow> dict list \<Rightarrow> (error + bool \<times> dict list) \<times> docs_gen" where
  "take_batch 0 g results = (Inr (False, results), g)"
| "take_batch (Suc n) g results =
     (case docs_generator_next g of
        (Yield doc, g') \<Rightarrow> take_batch n g' (results @ [doc])
      | (StopIteration, g') \<Rightarrow> (Inr (True, results), g')
      | (Raise e, g') \<Rightarrow> (Inl e, g'))"

definition batch_loop :: "int \<Rightarrow> source \<Rightarrow> dict list pulled \<times> batch_state \<times> source" where
  "batch_loop batch_size s =
     (case docs s of
        None \<Rightarrow> (Raise TypeError, Finished, s)
      | Some g \<Rightarrow>
          (case take_batch (nat batch_size) g [] of
             (Inl e, g') \<Rightarrow> (Raise e, Finished, s\<lparr>docs := Some g'\<rparr>)
           | (Inr (stopped, results), g') \<Rightarrow>
               if stopped then
                 (if results \<noteq> [] then (Yield results, Exhausted, s\<lparr>docs := Some g'\<rparr>)
                  else (StopIteration, Finished, s\<lparr>docs := Some g'\<rparr>))
               else (Yield results, Looping, s\<lparr>docs := Some g'\<rparr>)))"

text \<open>The call \<^verbatim>\<open>getDataBatch(batch_size)\<close> itself: it returns the generator, suspended
  before its first statement and holding its argument, and touches nothing.\<close>

definition getDataBatch :: "int \<Rightarrow> source \<Rightarrow> (error + int \<times> batch_state) \<times> source" where
  "getDataBatch batch_size s = (Inr (batch_size, Created), s)"

fun getDataBatch_next ::
    "env \<Rightarrow> int \<Rightarrow> batch_state \<times> source \<Rightarrow> dict list pulled \<times> batch_state \<times> source" where
  "getDataBatch_next world batch_size (Created, s) =
     (case check_args s of
        Inl e \<Rightarrow> (Raise e, Finished, s)
      | Inr u \<Rightarrow>
          (case load_data world s of
             Inl e \<Rightarrow> (Raise e, Finished, s)
           | Inr s' \<Rightarrow> batch_loop batch_size s'))"
| "getDataBatch_next world batch_size (Looping, s) = batch_loop batch_size s"
| "getDataBatch_next world batch_size (Exhausted, s) = (StopIteration, Finished, s)"
| "getDataBatch_next world batch_size (Finished, s) = (StopIteration, Finished, s)"

fun iterate ::
    "nat \<Rightarrow> env \<Rightarrow> int \<Rightarrow> batch_state \<times> source \<Rightarrow> (dict list list \<times> error option) option" where
  "iterate 0 world batch_size st = None"
| "iterate (Suc fuel) world batch_size st =
     (case getDataBatch_next world batch_size st of
        (Yield batch, st') \<Rightarrow>
          map_option (\<lambda>r. (batch # fst r, snd r)) (iterate fuel world batch_size st')
      | (StopIteration, st') \<Rightarrow> Some ([], None)
      | (Raise e, st') \<Rightarrow> Some ([], Some e))"

section \<open>Claims\<close>

text \<open>The source after a successful \<^verbatim>\<open>_load_data\<close>: both memo fields set.\<close>

definition loaded :: "source \<Rightarrow> string list \<Rightarrow> pyval list \<Rightarrow> frame \<Rightarrow> source" where
  "loaded s sch ds table =
     s\<lparr>schema := Some sch, docs := Some \<lparr>pending = ds, excel_data = table\<rparr>\<rparr>"

text \<open>The batch size law as a function on lists: a stream cut into groups of \<open>n\<close>, the last
  group holding what is left. It is what the claim on batches compares the generator with.\<close>

function batches_of :: "nat \<Rightarrow> 'a list \<Rightarrow> 'a list list" where
  "batches_of n xs = (if n = 0 \<or> xs = [] then [] else take n xs # batches_of n (drop n xs))"
  by pat_completeness auto
termination
  by (relation "measure (\<lambda>(n, xs). length xs)") auto

declare batches_of.simps [simp del]

text \<open>A small instance, after the \<^verbatim>\<open>__main__\<close> block of the module: two file names, a
  frame with two review rows for article \<open>A1\<close>, and articles with one nested field.\<close>

definition ex_table :: frame where
  "ex_table =
     \<lparr>columns = [''Row'', ''Article Id'', ''Reference Id'', ''Status'', ''Date Completed''],
      rows = [[PInt 1, PStr ''A1'', PStr ''R1'', PStr ''pending'', PNaN],
              [PInt 2, PStr ''A1'', PStr ''R2'', PStr ''approved'', PStr ''2021-08-01''],
              [PInt 3, PStr ''B7'', PStr ''R3'', PStr ''rejected'', PNaN]]\<rparr>"

definition article :: "string \<Rightarrow> pyval" where
  "article i = PDict [(''_id'', PStr i), (''headline'', PDict [(''main'', PStr ''News'')])]"

definition response :: "pyval list \<Rightarrow> pyval" where
  "response ds = PDict [(''status'', PStr ''OK''), (''response'', PDict [(''docs'', PList ds)])]"

definition files :: "pyval \<Rightarrow> frame \<Rightarrow> env" where
  "files data table =
     \<lparr>json_files = (\<lambda>p. if p = ''api_response.json'' then Inr data else Inl IOError),
      excel_files = (\<lambda>p. if p = ''reference_data.xlsx'' then Inr table else Inl IOError)\<rparr>"

definition ex_config :: config where
  "ex_config = \<lparr>api_response_file = ''api_response.json'',
                 reference_data_file = ''reference_data.xlsx''\<rparr>"

definition configured :: source where
  "configured = \<lparr>args = Some ex_config, schema = None, docs = None\<rparr>"

definition record_A1 :: dict where
  "record_A1 = [(''_id'', PStr ''A1''), (''headline.main'', PStr ''News''), (''row'', PInt 2),
     (''article_id'', PStr ''A1''), (''reference_id'', PStr ''R2''), (''status'', PStr ''approved''),
     (''date_completed'', PStr ''2021-08-01'')]"

definition record_B7 :: dict where
  "record_B7 = [(''_id'', PStr ''B7''), (''headline.main'', PStr ''News''), (''row'', PInt 3),
     (''article_id'', PStr ''B7''), (''reference_id'', PStr ''R3''), (''status'', PStr ''rejected''),
     (''date_completed'', PNaN)]"

definition five_articles :: "pyval list" where
  "five_articles = [article ''A1'', article ''B7'', article ''A1'', article ''A1'', article ''B7'']"

definition ex_schema :: "string list" where
  "ex_schema = [''_id'', ''headline.main'', ''row'', ''article_id'', ''reference_id'', ''status'',
     ''date_completed'']"


definition unconfigured :: source where
  "unconfigured = \<lparr>args = None, schema = None, docs = None\<rparr>"

definition no_files :: env where
  "no_files = \<lparr>json_files = (\<lambda>p. Inl IOError), excel_files = (\<lambda>p. Inl IOError)\<rparr>"

text \<open>
  C5. The claim that invoking \<^verbatim>\<open>getDataBatch(B)\<close> on an unconfigured source fails at once
  is false of the call: \<^verbatim>\<open>getDataBatch\<close> is a generator function, and the call returns
  the generator without running \<^verbatim>\<open>_check_args\<close>.
\<close>

theorem unconfigured_call_returns_generator_counterexample:
  "getDataBatch 2 unconfigured = (Inr (2, Created), unconfigured)"
  by (simp add: getDataBatch_def)

text \<open>
  C5, as the code has it. On a source whose \<open>args\<close> were never set, \<^verbatim>\<open>getSchema()\<close>
  raises \<^verbatim>\<open>NoArgumentsException\<close> at the call and leaves the source as it was. The call
  \<^verbatim>\<open>getDataBatch(B)\<close> returns its generator and raises nothing; the first pull of that
  generator raises \<^verbatim>\<open>NoArgumentsException\<close>, yields nothing and leaves the source as it
  was, so a consumer of the sequence gets the exception before any batch.
\<close>

theorem unconfigured_source_fails_at_first_pull:
  assumes "args s = None"
  shows "getSchema world s = (Inl NoArgumentsException, s) \<and>
    getDataBatch batch_size s = (Inr (batch_size, Created), s) \<and>
    getDataBatch_next world batch_size (Created, s) = (Raise NoArgumentsException, Finished, s) \<and>
    iterate (Suc fuel) world batch_size (Created, s) = Some ([], Some NoArgumentsException)"
  using assms by (simp add: getSchema_def check_args_def getDataBatch_def)

theorem unconfigured_source_fails_at_first_pull_witness:
  "args unconfigured = None \<and>
   getSchema no_files unconfigured = (Inl NoArgumentsException, unconfigured) \<and>
   getDataBatch 2 unconfigured = (Inr (2, Created), unconfigured) \<and>
   getDataBatch_next no_files 2 (Created, unconfigured)
     = (Raise NoArgumentsException, Finished, unconfigured) \<and>
   iterate (Suc 0) no_files 2 (Created, unconfigured) = Some ([], Some NoArgumentsException)"
proof -
  have a: "args unconfigured = None" by (simp add: unconfigured_def)
  from a unconfigured_source_fails_at_first_pull [OF a, of no_files 2 0] show ?thesis by simp
qed

lemma load_data_docs: "load_data world s = Inr s' \<Longrightarrow> docs s' \<noteq> None"
  by (auto simp: load_data_def split: option.splits sum.splits pyval.splits list.splits)

text \<open>
  C10. On a configured, not yet loaded source whose \<^verbatim>\<open>response.docs\<close> is the empty list,
  \<^verbatim>\<open>getSchema()\<close> and the first pull of \<^verbatim>\<open>getDataBatch(B)\<close> raise: the error of reading
  the reference file if that fails, and otherwise the \<^verbatim>\<open>IndexError\<close> of \<^verbatim>\<open>docs[0]\<close>.
  Neither returns an empty schema or an empty sequence of batches.
\<close>

theorem empty_collection_fails:
  assumes "args s = Some a" and "schema s = None" and "docs s = None"
    and "json_files world (api_response_file a) = Inr data"
    and "get_nested_data data [''response'', ''docs''] = Inr (PList [])"
  shows "getSchema world s =
      (Inl (case excel_files world (reference_data_file a) of Inl e \<Rightarrow> e | Inr t \<Rightarrow> IndexError), s) \<and>
    getDataBatch_next world batch_size (Created, s) =
      (Raise (case excel_files world (reference_data_file a) of Inl e \<Rightarrow> e | Inr t \<Rightarrow> IndexError),
       Finished, s) \<and>
    iterate (Suc fuel) world batch_size (Created, s) =
      Some ([], Some (case excel_files world (reference_data_file a) of
                        Inl e \<Rightarrow> e | Inr t \<Rightarrow> IndexError))"
proof -
  have "load_data world s =
      Inl (case excel_files world (reference_data_file a) of Inl e \<Rightarrow> e | Inr t \<Rightarrow> IndexError)"
    using assms unfolding load_data_def by (simp split: sum.splits)
  then show ?thesis
    using assms(1,2) by (simp add: getSchema_def check_args_def load_schema_def)
qed

theorem empty_collection_fails_witness:
  "get_nested_data (response []) [''response'', ''docs''] = Inr (PList []) \<and>
   getSchema (files (response []) ex_table) configured = (Inl IndexError, configured) \<and>
   getDataBatch_next (files (response []) ex_table) 2 (Created, configured)
     = (Raise IndexError, Finished, configured) \<and>
   iterate (Suc 0) (files (response []) ex_table) 2 (Created, configured)
     = Some ([], Some IndexError)"
proof -
  have d: "get_nested_data (response []) [''response'', ''docs''] = Inr (PList [])"
    by (simp add: response_def)
  have f: "json_files (files (response []) ex_table) (api_response_file ex_config)
      = Inr (response [])"
    by (simp add: files_def ex_config_def)
  have x: "excel_files (files (response []) ex_table) (reference_data_file ex_config)
      = Inr ex_table"
    by (simp add: files_def ex_config_def)
  have "args configured = Some ex_config" "schema configured = None" "docs configured = None"
    by (simp_all add: configured_def)
  from empty_collection_fails [OF this f d, of 2 0] d show ?thesis
    by (simp add: x)
qed

lemma nonpositive_loop:
  assumes "batch_size \<le> 0" and "docs s \<noteq> None"
  shows "batch_loop batch_size s = (Yield [], Looping, s)"
  using assms by (auto simp: batch_loop_def)

lemma nonpositive_iterate:
  assumes "batch_size \<le> 0" and "docs s \<noteq> None"
  shows "iterate fuel world batch_size (Looping, s) = None"
  by (induction fuel) (simp_all add: nonpositive_loop [OF assms])

text \<open>For a batch size below 1, on a configured source whose data loads, every pull yields
  an empty batch and takes no record, so a consumer runs out of every fuel.\<close>

lemma nonpositive_batch_size_loops:
  assumes "batch_size \<le> 0" and "args s \<noteq> None" and "load_data world s = Inr s'"
  shows "getDataBatch_next world batch_size (Created, s) = (Yield [], Looping, s') \<and>
    getDataBatch_next world batch_size (Looping, s') = (Yield [], Looping, s') \<and>
    iterate fuel world batch_size (Created, s) = None"
proof -
  have d: "docs s' \<noteq> None" using assms(3) by (rule load_data_docs)
  have c: "getDataBatch_next world batch_size (Created, s) = (Yield [], Looping, s')"
    using assms(2,3) nonpositive_loop [OF assms(1) d] by (auto simp: check_args_def)
  have "iterate fuel world batch_size (Created, s) = None"
  proof (cases fuel)
    case 0
    then show ?thesis by simp
  next
    case (Suc n)
    have "iterate (Suc n) world batch_size (Created, s)
        = map_option (\<lambda>r. ([] # fst r, snd r)) (iterate n world batch_size (Looping, s'))"
      unfolding iterate.simps c by simp
    then show ?thesis using Suc nonpositive_iterate [OF assms(1) d] by simp
  qed
  with c nonpositive_loop [OF assms(1) d] show ?thesis by simp
qed


subsection \<open>Batches\<close>

lemma take_batch_full:
  assumes "list_all2 (\<lambda>d r. reconcile (excel_data g) d = Inr r) (pending g) rs"
    and "n \<le> length rs"
  shows "take_batch n g acc = (Inr (False, acc @ take n rs), g\<lparr>pending := drop n (pending g)\<rparr>)"
  using assms
proof (induction n arbitrary: g rs acc)
  case 0
  then show ?case by simp
next
  case (Suc n)
  from Suc.prems obtain d ds r rs' where
    p: "pending g = d # ds" and r: "rs = r # rs'" and h: "reconcile (excel_data g) d = Inr r"
    and t: "list_all2 (\<lambda>d r. reconcile (excel_data g) d = Inr r) ds rs'"
    by (cases rs) (auto simp: list_all2_Cons2)
  have nx: "docs_generator_next g = (Yield r, g\<lparr>pending := ds\<rparr>)"
    using p h by (simp add: docs_generator_next_def)
  have "take_batch n (g\<lparr>pending := ds\<rparr>) (acc @ [r])
      = (Inr (False, (acc @ [r]) @ take n rs'), g\<lparr>pending := ds\<rparr>\<lparr>pending := drop n (pending (g\<lparr>pending := ds\<rparr>))\<rparr>)"
    using t Suc.prems(2) r by (intro Suc.IH) simp_all
  then show ?case using nx p r by simp
qed

lemma take_batch_short:
  assumes "list_all2 (\<lambda>d r. reconcile (excel_data g) d = Inr r) (pending g) rs"
    and "length rs < n"
  shows "take_batch n g acc = (Inr (True, acc @ rs), g\<lparr>pending := []\<rparr>)"
  using assms
proof (induction n arbitrary: g rs acc)
  case 0
  then show ?case by simp
next
  case (Suc n)
  show ?case
  proof (cases rs)
    case Nil
    with Suc.prems have "pending g = []" by simp
    then have "docs_generator_next g = (StopIteration, g)" by (simp add: docs_generator_next_def)
    moreover have "g\<lparr>pending := []\<rparr> = g" using \<open>pending g = []\<close> by simp
    ultimately show ?thesis using Nil by simp
  next
    case (Cons r rs')
    with Suc.prems obtain d ds where
      p: "pending g = d # ds" and h: "reconcile (excel_data g) d = Inr r"
      and t: "list_all2 (\<lambda>d r. reconcile (excel_data g) d = Inr r) ds rs'"
      by (auto simp: list_all2_Cons2)
    have nx: "docs_generator_next g = (Yield r, g\<lparr>pending := ds\<rparr>)"
      using p h by (simp add: docs_generator_next_def)
    have "take_batch n (g\<lparr>pending := ds\<rparr>) (acc @ [r])
        = (Inr (True, (acc @ [r]) @ rs'), g\<lparr>pending := ds\<rparr>\<lparr>pending := []\<rparr>)"
      using t Suc.prems(2) Cons by (intro Suc.IH) simp_all
    then show ?thesis using nx Cons by simp
  qed
qed

lemma batches_of_step:
  "0 < n \<Longrightarrow> xs \<noteq> [] \<Longrightarrow> batches_of n xs = take n xs # batches_of n (drop n xs)"
  by (subst batches_of.simps) simp

lemma batches_of_Nil: "batches_of n [] = []"
  by (subst batches_of.simps) simp

lemma batches_of_zero: "batches_of 0 xs = []"
  by (subst batches_of.simps) simp

lemma iterate_looping:
  "0 < n \<Longrightarrow> docs s = Some g \<Longrightarrow>
    list_all2 (\<lambda>d r. reconcile (excel_data g) d = Inr r) (pending g) rs \<Longrightarrow>
    length (batches_of n rs) < fuel \<Longrightarrow>
    iterate fuel world (int n) (Looping, s) = Some (batches_of n rs, None)"
proof (induction n rs arbitrary: s g fuel rule: batches_of.induct)
  case (1 n xs)
  note pos = "1.prems"(1) and ds = "1.prems"(2) and rel = "1.prems"(3) and fl = "1.prems"(4)
  from fl obtain k where fuel: "fuel = Suc k" by (cases fuel) auto
  show ?case
  proof (cases "xs = []")
    case True
    have "take_batch n g [] = (Inr (True, [] @ xs), g\<lparr>pending := []\<rparr>)"
      using rel pos True by (intro take_batch_short) simp_all
    then show ?thesis using True ds fuel
      by (simp add: batch_loop_def batches_of_Nil)
  next
    case False
    show ?thesis
    proof (cases "n \<le> length xs")
      case True
      have tb: "take_batch n g [] = (Inr (False, [] @ take n xs), g\<lparr>pending := drop n (pending g)\<rparr>)"
        using rel True by (intro take_batch_full) simp_all
      let ?s' = "s\<lparr>docs := Some (g\<lparr>pending := drop n (pending g)\<rparr>)\<rparr>"
      have step: "batch_loop (int n) s = (Yield (take n xs), Looping, ?s')"
        using tb ds by (simp add: batch_loop_def)
      have b: "batches_of n xs = take n xs # batches_of n (drop n xs)"
        using False pos by (simp add: batches_of_step)
      have "iterate k world (int n) (Looping, ?s') = Some (batches_of n (drop n xs), None)"
      proof (rule "1.IH")
        show "\<not> (n = 0 \<or> xs = [])" using False pos by simp
        show "0 < n" by (rule pos)
        show "docs ?s' = Some (g\<lparr>pending := drop n (pending g)\<rparr>)" by simp
        show "list_all2 (\<lambda>d r. reconcile (excel_data (g\<lparr>pending := drop n (pending g)\<rparr>)) d = Inr r)
            (pending (g\<lparr>pending := drop n (pending g)\<rparr>)) (drop n xs)"
          using rel by simp
        show "length (batches_of n (drop n xs)) < k" using fl b fuel by simp
      qed
      then show ?thesis using step b fuel by simp
    next
      case short: False
      have tb: "take_batch n g [] = (Inr (True, [] @ xs), g\<lparr>pending := []\<rparr>)"
        using rel short by (intro take_batch_short) simp_all
      have step: "batch_loop (int n) s = (Yield xs, Exhausted, s\<lparr>docs := Some (g\<lparr>pending := []\<rparr>)\<rparr>)"
        using tb ds False by (simp add: batch_loop_def)
      have b: "batches_of n xs = [xs]"
        using False pos short by (simp add: batches_of_step batches_of_Nil)
      from fl b fuel obtain k' where k: "k = Suc k'" by (cases k) auto
      show ?thesis using step b fuel k by simp
    qed
  qed
qed

lemma concat_batches_of: "0 < n \<Longrightarrow> concat (batches_of n xs) = xs"
proof (induction n xs rule: batches_of.induct)
  case (1 n xs)
  show ?case
  proof (cases "xs = []")
    case True
    then show ?thesis by (simp add: batches_of_Nil)
  next
    case False
    with 1 show ?thesis by (simp add: batches_of_step)
  qed
qed

lemma batches_of_nonempty: "[] \<notin> set (batches_of n xs)"
proof (induction n xs rule: batches_of.induct)
  case (1 n xs)
  show ?case
  proof (cases "n = 0 \<or> xs = []")
    case True
    then show ?thesis by (auto simp: batches_of_Nil batches_of_zero)
  next
    case False
    with 1 show ?thesis by (simp add: batches_of_step)
  qed
qed

lemma ceil_div_step:
  assumes "0 < (n::nat)" and "0 < m"
  shows "(m + n - 1) div n = Suc ((m - n + n - 1) div n)"
proof (cases "n \<le> m")
  case True
  have e: "m + n - 1 = (m - 1) + n" using assms by linarith
  have "((m - 1) + n) div n = Suc ((m - 1) div n)"
    using assms(1) le_div_geq [of n "(m - 1) + n"] by simp
  moreover have "m - n + n - 1 = m - 1" using True by linarith
  ultimately show ?thesis by (simp only: e)
next
  case False
  have a: "m - n + n - 1 = n - 1" using False by linarith
  have "n \<le> m + n - 1" and "m + n - 1 - n < n" using False assms by linarith+
  then have "(m + n - 1) div n = Suc 0" by (simp add: le_div_geq)
  moreover have "(n - 1) div n = 0" using assms(1) by simp
  ultimately show ?thesis by (simp only: a)
qed

lemma length_batches_of: "0 < n \<Longrightarrow> length (batches_of n xs) = (length xs + n - 1) div n"
proof (induction n xs rule: batches_of.induct)
  case (1 n xs)
  show ?case
  proof (cases "xs = []")
    case True
    then show ?thesis using "1.prems" by (simp add: batches_of_Nil)
  next
    case False
    then have "length (batches_of n xs) = Suc ((length xs - n + n - 1) div n)"
      using 1 by (simp add: batches_of_step)
    also have "\<dots> = (length xs + n - 1) div n"
      using ceil_div_step [of n "length xs"] "1.prems" False by simp
    finally show ?thesis .
  qed
qed

lemma butlast_batches_of: "b \<in> set (butlast (batches_of n xs)) \<Longrightarrow> length b = n"
proof (induction n xs arbitrary: b rule: batches_of.induct)
  case (1 n xs)
  show ?case
  proof (cases "n = 0 \<or> xs = []")
    case True
    then have "batches_of n xs = []" by (auto simp: batches_of_Nil batches_of_zero)
    with "1.prems" show ?thesis by simp
  next
    case False
    then have b: "batches_of n xs = take n xs # batches_of n (drop n xs)"
      by (simp add: batches_of_step)
    show ?thesis
    proof (cases "drop n xs = []")
      case True
      then have "batches_of n xs = [take n xs]" using b by (simp add: batches_of_Nil)
      with "1.prems" show ?thesis by simp
    next
      case ne: False
      then have l: "length (take n xs) = n" by simp
      have "batches_of n (drop n xs) \<noteq> []"
        using ne False by (simp add: batches_of_step)
      then have "butlast (batches_of n xs) = take n xs # butlast (batches_of n (drop n xs))"
        using b by simp
      with "1.prems" have "b = take n xs \<or> b \<in> set (butlast (batches_of n (drop n xs)))"
        by simp
      then show ?thesis
      proof
        assume "b = take n xs"
        with l show ?thesis by simp
      next
        assume "b \<in> set (butlast (batches_of n (drop n xs)))"
        then show ?thesis by (rule "1.IH" [OF False])
      qed
    qed
  qed
qed

lemma last_batches_of:
  "0 < n \<Longrightarrow> xs \<noteq> [] \<Longrightarrow>
   length (last (batches_of n xs)) = (if length xs mod n = 0 then n else length xs mod n)"
proof (induction n xs rule: batches_of.induct)
  case (1 n xs)
  have b: "batches_of n xs = take n xs # batches_of n (drop n xs)"
    using "1.prems" by (simp add: batches_of_step)
  show ?case
  proof (cases "drop n xs = []")
    case True
    then have le: "length xs \<le> n" by simp
    have "batches_of n xs = [take n xs]" using b True by (simp add: batches_of_Nil)
    then have eq: "length (last (batches_of n xs)) = length xs" using le by simp
    have pos: "0 < length xs" using "1.prems" by simp
    show ?thesis
    proof (cases "length xs = n")
      case True
      with eq show ?thesis by simp
    next
      case False
      with le have "length xs < n" by simp
      then have "length xs mod n = length xs" by simp
      with eq pos show ?thesis by simp
    qed
  next
    case False
    then have gt: "n < length xs" by simp
    have ne: "batches_of n (drop n xs) \<noteq> []"
      using False "1.prems" by (simp add: batches_of_step)
    have "length (last (batches_of n xs)) = length (last (batches_of n (drop n xs)))"
      using b ne by simp
    also have "\<dots> = (if length (drop n xs) mod n = 0 then n else length (drop n xs) mod n)"
    proof (rule "1.IH")
      show "\<not> (n = 0 \<or> xs = [])" using "1.prems" by simp
      show "0 < n" using "1.prems" by simp
      show "drop n xs \<noteq> []" by (rule False)
    qed
    also have "length (drop n xs) mod n = length xs mod n"
      using gt by (simp add: le_mod_geq)
    finally show ?thesis .
  qed
qed

subsection \<open>The instance evaluated\<close>

lemma reconcile_A1: "reconcile ex_table (article ''A1'') = Inr record_A1"
  by code_simp

lemma reconcile_B7: "reconcile ex_table (article ''B7'') = Inr record_B7"
  by code_simp


lemma load_five:
  "load_data (files (response five_articles) ex_table) configured
     = Inr (loaded configured ex_schema five_articles ex_table)"
  by code_simp

lemma reconcile_steps:
  "reconcile table d = Inr r \<Longrightarrow>
   \<exists>flat. flatten_dict d = Inr flat \<and> match_by_review_status flat table = Inr r"
  by (auto simp: reconcile_def split: sum.splits)

lemma iterate_created:
  assumes "args s \<noteq> None" and "load_data world s = Inr s'"
  shows "iterate fuel world batch_size (Created, s) = iterate fuel world batch_size (Looping, s')"
  using assms by (cases fuel) (auto simp: check_args_def)

text \<open>
  C4. The module never looks at \<^verbatim>\<open>batch_size\<close>. With batch size 0 on a configured
  source with one article the first pull raises nothing and yields an empty batch, the
  stream is left untouched, the next pull does the same, and a consumer that pulls seven
  times has not reached the end: \<^verbatim>\<open>range(0)\<close> is empty, the \<^verbatim>\<open>for\<close> loop never calls
  \<^verbatim>\<open>next\<close>, and the \<^verbatim>\<open>yield results\<close> after it yields the empty list, which the guard
  \<^verbatim>\<open>if results:\<close> of the handler keeps out of the sequence on the other path.
\<close>

theorem batch_size_zero_yields_empty_batches:
  "getDataBatch_next (files (response [article ''A1'']) ex_table) 0 (Created, configured)
     = (Yield [], Looping, loaded configured ex_schema [article ''A1''] ex_table) \<and>
   getDataBatch_next (files (response [article ''A1'']) ex_table) 0
       (Looping, loaded configured ex_schema [article ''A1''] ex_table)
     = (Yield [], Looping, loaded configured ex_schema [article ''A1''] ex_table) \<and>
   iterate 7 (files (response [article ''A1'']) ex_table) 0 (Created, configured) = None"
  by code_simp

text \<open>
  C1. On a configured source whose data loads and whose stream holds \<open>N\<close> documents that
  all reconcile, to the records \<open>rs\<close>, a consumer of \<^verbatim>\<open>getDataBatch(B)\<close> with \<open>B > 0\<close>
  receives exactly the batches \<open>batches_of B rs\<close> and then the end of the sequence:
  \<open>ceil(N/B)\<close> batches that together are the stream in order, every batch but the last of
  size \<open>B\<close>, the last of size \<open>N mod B\<close> when that is not 0 and \<open>B\<close> otherwise, no batch
  empty, and no batch at all when \<open>N = 0\<close>.
\<close>

theorem batch_size_law:
  assumes "0 < batch_size" and "args s \<noteq> None" and "load_data world s = Inr s'"
    and "docs s' = Some g"
    and "list_all2 (\<lambda>d r. reconcile (excel_data g) d = Inr r) (pending g) rs"
    and "(length rs + nat batch_size - 1) div nat batch_size < fuel"
  shows "iterate fuel world batch_size (Created, s) = Some (batches_of (nat batch_size) rs, None) \<and>
    concat (batches_of (nat batch_size) rs) = rs \<and>
    length (batches_of (nat batch_size) rs) = (length rs + nat batch_size - 1) div nat batch_size \<and>
    (\<forall>b\<in>set (butlast (batches_of (nat batch_size) rs)). length b = nat batch_size) \<and>
    (rs \<noteq> [] \<longrightarrow> length (last (batches_of (nat batch_size) rs)) =
       (if length rs mod nat batch_size = 0 then nat batch_size
        else length rs mod nat batch_size)) \<and>
    [] \<notin> set (batches_of (nat batch_size) rs) \<and>
    (rs = [] \<longrightarrow> batches_of (nat batch_size) rs = [])"
proof -
  let ?n = "nat batch_size"
  have pos: "0 < ?n" using assms(1) by simp
  have n: "int ?n = batch_size" using assms(1) by simp
  have len: "length (batches_of ?n rs) = (length rs + ?n - 1) div ?n"
    using pos by (rule length_batches_of)
  have "iterate fuel world (int ?n) (Looping, s') = Some (batches_of ?n rs, None)"
    using pos assms(4,5) assms(6) [folded len] by (rule iterate_looping)
  then have "iterate fuel world batch_size (Created, s) = Some (batches_of ?n rs, None)"
    using iterate_created [OF assms(2,3)] n by simp
  moreover have "concat (batches_of ?n rs) = rs" using pos by (rule concat_batches_of)
  moreover have "\<forall>b\<in>set (butlast (batches_of ?n rs)). length b = ?n"
    using butlast_batches_of by blast
  moreover have "rs \<noteq> [] \<longrightarrow> length (last (batches_of ?n rs)) =
       (if length rs mod ?n = 0 then ?n else length rs mod ?n)"
    using last_batches_of [OF pos] by blast
  moreover have "[] \<notin> set (batches_of ?n rs)" by (rule batches_of_nonempty)
  moreover have "rs = [] \<longrightarrow> batches_of ?n rs = []" by (simp add: batches_of_Nil)
  ultimately show ?thesis using len by blast
qed

theorem batch_size_law_witness:
  "iterate 4 (files (response five_articles) ex_table) 2 (Created, configured)
     = Some ([[record_A1, record_B7], [record_A1, record_A1], [record_B7]], None)"
proof -
  let ?g = "\<lparr>pending = five_articles, excel_data = ex_table\<rparr>"
  let ?rs = "[record_A1, record_B7, record_A1, record_A1, record_B7]"
  have a: "args configured \<noteq> None" by (simp add: configured_def)
  have d: "docs (loaded configured ex_schema five_articles ex_table) = Some ?g"
    by (simp add: loaded_def)
  have r: "list_all2 (\<lambda>d r. reconcile (excel_data ?g) d = Inr r) (pending ?g) ?rs"
    by (simp add: five_articles_def reconcile_A1 reconcile_B7)
  have f: "(length ?rs + nat 2 - 1) div nat 2 < 4" by simp
  have b: "batches_of (nat 2) ?rs = [[record_A1, record_B7], [record_A1, record_A1], [record_B7]]"
    by (simp add: batches_of_step batches_of_Nil)
  have "(0::int) < 2" by simp
  from batch_size_law [OF this a load_five d r f] b show ?thesis by simp
qed

text \<open>
  C9. The claim that every collection gives one record per document fails where a document
  does not reconcile: of the articles \<open>A1\<close>, \<open>ZZ\<close>, \<open>B7\<close>, with no review row for
  \<open>ZZ\<close>, the generator yields the record of \<open>A1\<close>, raises \<^verbatim>\<open>ValueError\<close> at \<open>ZZ\<close>
  and is finished; the record of \<open>B7\<close>, which reconciles, is never produced.
\<close>

theorem docs_generator_unmatched_counterexample:
  "docs_outcomes 4 \<lparr>pending = [article ''A1'', article ''ZZ'', article ''B7''], excel_data = ex_table\<rparr>
     = [Yield record_A1, Raise ValueError, StopIteration, StopIteration] \<and>
   reconcile ex_table (article ''B7'') = Inr record_B7"
  by code_simp

lemma take_replicate_more:
  "k \<le> m \<Longrightarrow> take k (xs @ replicate m x) = take k (xs @ replicate k x)"
proof -
  assume "k \<le> m"
  then have "min (k - length xs) m = min (k - length xs) k" by simp
  then show ?thesis by simp
qed

lemma take_Cons_replicate: "take k (x # replicate k x) = replicate k x"
  by (induction k) simp_all

lemma docs_outcomes_finished:
  "docs_outcomes n \<lparr>pending = [], excel_data = table\<rparr> = replicate n StopIteration"
  by (induction n) (simp_all add: docs_generator_next_def)

text \<open>
  C9, as the code has it. The generator goes through the collection in order and yields,
  for each document, the joiner's result on the flattening of that document, up to the
  first document on which the flattener or the joiner raises; there it raises that error
  and is finished, and every later pull finds it stopped. When every document flattens
  and joins, that is one record per document, in the order of the collection.
\<close>

theorem docs_generator_stops_at_first_failure:
  "docs_outcomes n \<lparr>pending = ds, excel_data = table\<rparr>
     = take n (expected_outcomes table ds @ replicate n StopIteration) \<and>
   (list_all2 (\<lambda>d r. \<exists>flat. flatten_dict d = Inr flat \<and>
        match_by_review_status flat table = Inr r) ds rs
      \<longrightarrow> expected_outcomes table ds = map Yield rs)"
proof
  show "docs_outcomes n \<lparr>pending = ds, excel_data = table\<rparr>
     = take n (expected_outcomes table ds @ replicate n StopIteration)"
  proof (induction ds arbitrary: n)
    case Nil
    then show ?case by (simp add: docs_outcomes_finished)
  next
    case (Cons d ds)
    show ?case
    proof (cases n)
      case 0
      then show ?thesis by simp
    next
      case (Suc k)
      show ?thesis
      proof (cases "reconcile table d")
        case (Inl e)
        then have x: "expected_outcomes table (d # ds) = [Raise e]"
          by (auto simp: reconcile_def split: sum.splits)
        have "docs_generator_next \<lparr>pending = d # ds, excel_data = table\<rparr>
            = (Raise e, \<lparr>pending = [], excel_data = table\<rparr>)"
          using Inl by (simp add: docs_generator_next_def)
        then show ?thesis
          using Suc x by (simp add: docs_outcomes_finished take_Cons_replicate)
      next
        case (Inr r)
        then have x: "expected_outcomes table (d # ds) = Yield r # expected_outcomes table ds"
          by (auto simp: reconcile_def split: sum.splits)
        have "docs_generator_next \<lparr>pending = d # ds, excel_data = table\<rparr>
            = (Yield r, \<lparr>pending = ds, excel_data = table\<rparr>)"
          using Inr by (simp add: docs_generator_next_def)
        moreover have "take k (expected_outcomes table ds @ replicate (Suc k) StopIteration)
            = take k (expected_outcomes table ds @ replicate k StopIteration)"
          by (rule take_replicate_more) simp
        ultimately show ?thesis using Suc x Cons.IH [of k] by simp
      qed
    qed
  qed
next
  show "list_all2 (\<lambda>d r. \<exists>flat. flatten_dict d = Inr flat \<and>
        match_by_review_status flat table = Inr r) ds rs
      \<longrightarrow> expected_outcomes table ds = map Yield rs"
  proof
    assume "list_all2 (\<lambda>d r. \<exists>flat. flatten_dict d = Inr flat \<and>
        match_by_review_status flat table = Inr r) ds rs"
    then show "expected_outcomes table ds = map Yield rs"
      by (induction ds rs rule: list_all2_induct) auto
  qed
qed

theorem docs_generator_stops_at_first_failure_witness:
  "docs_outcomes 3 \<lparr>pending = [article ''A1'', article ''B7''], excel_data = ex_table\<rparr>
     = [Yield record_A1, Yield record_B7, StopIteration]"
proof -
  have "list_all2 (\<lambda>d r. \<exists>flat. flatten_dict d = Inr flat \<and>
          match_by_review_status flat ex_table = Inr r)
        [article ''A1'', article ''B7''] [record_A1, record_B7]"
    using reconcile_steps [OF reconcile_A1] reconcile_steps [OF reconcile_B7] by simp
  with docs_generator_stops_at_first_failure
    [of 3 "[article ''A1'', article ''B7'']" ex_table "[record_A1, record_B7]"]
  show ?thesis by (simp add: numeral_3_eq_3)
qed



subsection \<open>The joiner\<close>

lemma get_column_index:
  "column_index (columns f) c = Some i \<Longrightarrow> get_column f c = Inr (map (\<lambda>r. r ! i) (rows f))"
  by (simp add: get_column_def)

lemma series_eq_scalar:
  "\<not> is_list v \<Longrightarrow> series_eq col (Some v) = Inr (map (\<lambda>c. cell_eq c v) col)"
  by (cases v) simp_all

lemma boolean_index_set:
  "set (boolean_index sel xs) = {(i, xs ! i) | i. i < length xs \<and> i < length sel \<and> sel ! i}"
proof -
  have "set (boolean_index sel xs)
      = snd ` {p \<in> set (zip sel (enumerate 0 xs)). fst p}" by (auto simp: boolean_index_def)
  also have "\<dots> = {(i, xs ! i) | i. i < length xs \<and> i < length sel \<and> sel ! i}"
    by (force simp: in_set_zip nth_enumerate_eq image_iff)
  finally show ?thesis .
qed

lemma sorted_selection:
  "sorted_wrt R zs \<Longrightarrow> sorted_wrt R (map snd (filter fst (zip bs zs)))"
proof (induction zs arbitrary: bs)
  case Nil
  then show ?case by simp
next
  case (Cons z zs)
  show ?case
  proof (cases bs)
    case Nil
    then show ?thesis by simp
  next
    case (Cons b bs')
    have "set (map snd (filter fst (zip bs' zs))) \<subseteq> set zs"
      by (auto dest: set_zip_rightD)
    with Cons.prems Cons.IH [of bs'] Cons show ?thesis by (auto dest: set_zip_rightD)
  qed
qed

lemma boolean_index_sorted:
  "sorted_wrt (\<lambda>a b. fst a < fst b) (boolean_index sel xs)"
proof -
  have "sorted_wrt (<) (map fst (enumerate 0 xs))" by (simp add: map_fst_enumerate)
  then have "sorted_wrt (\<lambda>a b. fst a < fst b) (enumerate 0 xs)" by (simp only: sorted_wrt_map)
  then show ?thesis by (simp add: sorted_selection boolean_index_def)
qed

lemma first_max_None: "first_max key s = None \<Longrightarrow> p \<in> set s \<Longrightarrow> key (snd p) = None"
  by (induction s) (auto split: option.splits if_splits)

lemma first_max_Some:
  "sorted_wrt (\<lambda>a b. fst a < fst b) s \<Longrightarrow> first_max key s = Some (j, m) \<Longrightarrow>
   (\<exists>v. (j, v) \<in> set s \<and> key v = Some m) \<and>
   (\<forall>i v n. (i, v) \<in> set s \<and> key v = Some n \<longrightarrow> n \<le> m \<and> (n = m \<longrightarrow> j \<le> i))"
proof (induction s arbitrary: j m)
  case Nil
  then show ?case by simp
next
  case (Cons p xs)
  obtain i0 v0 where p: "p = (i0, v0)" by (cases p)
  from Cons.prems(1) have s: "sorted_wrt (\<lambda>a b. fst a < fst b) xs"
    and lt: "\<forall>x\<in>set xs. i0 < fst x" by (auto simp: p)
  show ?case
  proof (cases "key v0")
    case None
    with Cons.prems(2) have "first_max key xs = Some (j, m)" by (simp add: p)
    from Cons.IH [OF s this] None show ?thesis by (auto simp: p)
  next
    case (Some a)
    show ?thesis
    proof (cases "first_max key xs")
      case None
      with Cons.prems(2) Some have e: "j = i0" "m = a" by (simp_all add: p)
      have "\<And>i v n. (i, v) \<in> set xs \<Longrightarrow> key v = Some n \<Longrightarrow> False"
        using first_max_None [OF None] by fastforce
      then show ?thesis using e Some by (auto simp: p)
    next
      case rest: (Some jm)
      obtain j' m' where jm: "jm = (j', m')" by (cases jm)
      from Cons.IH [OF s] rest jm have ih1: "\<exists>v. (j', v) \<in> set xs \<and> key v = Some m'"
        and ih2: "\<forall>i v n. (i, v) \<in> set xs \<and> key v = Some n \<longrightarrow> n \<le> m' \<and> (n = m' \<longrightarrow> j' \<le> i)"
        by auto
      show ?thesis
      proof (cases "a < m'")
        case True
        with Cons.prems(2) Some rest jm have e: "j = j'" "m = m'" by (simp_all add: p)
        show ?thesis
        proof (intro conjI allI impI)
          show "\<exists>v. (j, v) \<in> set (p # xs) \<and> key v = Some m" using ih1 e by auto
        next
          fix i v n assume h: "(i, v) \<in> set (p # xs) \<and> key v = Some n"
          show "n \<le> m" using h ih2 Some True e by (auto simp: p)
        next
          fix i v n assume h: "(i, v) \<in> set (p # xs) \<and> key v = Some n" and "n = m"
          then show "j \<le> i" using ih2 Some True e by (auto simp: p)
        qed
      next
        case False
        with Cons.prems(2) Some rest jm have e: "j = i0" "m = a" by (simp_all add: p)
        show ?thesis
        proof (intro conjI allI impI)
          show "\<exists>v. (j, v) \<in> set (p # xs) \<and> key v = Some m" using Some e by (auto simp: p)
        next
          fix i v n assume h: "(i, v) \<in> set (p # xs) \<and> key v = Some n"
          show "n \<le> m" using h ih2 Some False e by (fastforce simp: p)
        next
          fix i v n assume h: "(i, v) \<in> set (p # xs) \<and> key v = Some n" and "n = m"
          then show "j \<le> i" using lt e by (fastforce simp: p)
        qed
      qed
    qed
  qed
qed

lemma numeric_cell_key: "numeric_cell v \<Longrightarrow> v = PNaN \<or> num_key v \<noteq> None"
  by (cases v) auto

lemma numeric_cell_PInt: "numeric_cell v \<Longrightarrow> num_key v = Some n \<Longrightarrow> v = PInt n"
  by (cases v) auto

lemma map_of_setitem: "map_of (setitem d k v) = (map_of d)(k \<mapsto> v)"
  by (induction d k v rule: setitem.induct) auto

lemma setitem_fresh: "k \<notin> fst ` set d \<Longrightarrow> setitem d k v = d @ [(k, v)]"
  by (induction d k v rule: setitem.induct) auto

lemma dict_update_Cons: "dict_update d (kv # other) = dict_update (setitem d (fst kv) (snd kv)) other"
  by (simp add: dict_update_def)

lemma dict_update_Nil: "dict_update d [] = d"
  by (simp add: dict_update_def)

lemma map_of_dict_update: "map_of (dict_update d other) = map_of d ++ map_of (rev other)"
proof (induction other arbitrary: d)
  case Nil
  then show ?case by (simp add: dict_update_Nil)
next
  case (Cons kv other)
  have "map_of (dict_update d (kv # other))
      = (map_of d)(fst kv \<mapsto> snd kv) ++ map_of (rev other)"
    by (simp only: dict_update_Cons Cons.IH map_of_setitem)
  also have "\<dots> = map_of d ++ map_of (rev (kv # other))"
    by (cases kv) (auto simp: map_add_def fun_eq_iff split: option.splits)
  finally show ?case .
qed

lemma dict_update_fresh:
  "distinct (map fst other) \<Longrightarrow> fst ` set other \<inter> fst ` set d = {} \<Longrightarrow>
   dict_update d other = d @ other"
proof (induction other arbitrary: d)
  case Nil
  then show ?case by (simp add: dict_update_Nil)
next
  case (Cons kv other)
  have f: "fst kv \<notin> fst ` set d" using Cons.prems(2) by auto
  have "dict_update (d @ [(fst kv, snd kv)]) other = (d @ [(fst kv, snd kv)]) @ other"
    using Cons.prems by (intro Cons.IH) auto
  then show ?case by (simp add: dict_update_Cons setitem_fresh [OF f])
qed

lemma distinct_fst_zip: "distinct xs \<Longrightarrow> distinct (map fst (zip xs ys))"
  by (simp add: map_fst_zip_take)

lemma normalized_row_distinct:
  assumes "distinct (map normalize_key (columns f))"
  shows "normalized_row f series = zip (map normalize_key (columns f)) series"
proof -
  have dc: "distinct (columns f)" using assms by (rule distinct_map [THEN iffD1, THEN conjunct1])
  have "distinct (map fst (zip (columns f) series))"
    using dc by (simp add: distinct_fst_zip)
  then have t: "to_dict f series = zip (columns f) series"
    unfolding to_dict_def using dict_update_fresh [of "zip (columns f) series" "[]"] by simp
  have m: "map (\<lambda>kv. (normalize_key (fst kv), snd kv)) (zip (columns f) series)
      = zip (map normalize_key (columns f)) series"
    by (simp add: zip_map1 case_prod_beta)
  have "distinct (map fst (zip (map normalize_key (columns f)) series))"
    using assms by (simp add: distinct_fst_zip)
  then show ?thesis
    unfolding normalized_row_def t m
    using dict_update_fresh [of "zip (map normalize_key (columns f)) series" "[]"] by simp
qed

text \<open>
  C2. When the frame has the columns \<^verbatim>\<open>Article Id\<close> and \<^verbatim>\<open>Row\<close>, the \<^verbatim>\<open>Row\<close> column is
  numeric, and the document's identifier (not a list) equals the article identifier of at
  least one row with an ordinal, the joiner succeeds and merges the columns of row \<open>p\<close>,
  where \<open>p\<close> is a matching row, its ordinal is the largest among the matching rows, and it
  is the first such row. The result is the document updated with that row under the
  normalized column names; with column names that stay distinct when normalized, it maps
  every normalized column name to the cell of row \<open>p\<close> and every other key as the document
  did. On the two rows for \<open>A1\<close> with ordinals 1 and 2 the status merged is that of
  ordinal 2.
\<close>

theorem latest_row_wins:
  assumes "column_index (columns f) ''Article Id'' = Some ia"
    and "column_index (columns f) ''Row'' = Some ir"
    and "map_of doc ''_id'' = Some ident" and "\<not> is_list ident"
    and "list_all numeric_cell (map (\<lambda>r. r ! ir) (rows f))"
    and "k < length (rows f)" and "cell_eq (rows f ! k ! ia) ident"
    and "rows f ! k ! ir = PInt o_k"
  shows "\<exists>p n. p < length (rows f) \<and> cell_eq (rows f ! p ! ia) ident \<and>
      rows f ! p ! ir = PInt n \<and>
      (\<forall>q m. q < length (rows f) \<and> cell_eq (rows f ! q ! ia) ident \<and> rows f ! q ! ir = PInt m
         \<longrightarrow> m \<le> n \<and> (m = n \<longrightarrow> p \<le> q)) \<and>
      match_by_review_status doc f = Inr (dict_update doc (normalized_row f (rows f ! p))) \<and>
      (distinct (map normalize_key (columns f)) \<longrightarrow>
         map_of (dict_update doc (normalized_row f (rows f ! p)))
           = map_of doc ++ map_of (zip (map normalize_key (columns f)) (rows f ! p)))"
proof -
  define ords where "ords = map (\<lambda>r. r ! ir) (rows f)"
  define s where
    "s = boolean_index (map (\<lambda>c. cell_eq c ident) (map (\<lambda>r. r ! ia) (rows f))) ords"
  have mem: "\<And>i v. (i, v) \<in> set s \<longleftrightarrow>
      i < length (rows f) \<and> cell_eq (rows f ! i ! ia) ident \<and> v = rows f ! i ! ir"
    unfolding s_def ords_def boolean_index_set by auto
  have hit: "(k, PInt o_k) \<in> set s" using assms(6-8) unfolding mem by simp
  then have ne: "s \<noteq> []" by auto
  have num: "\<And>i v. (i, v) \<in> set s \<Longrightarrow> numeric_cell v"
  proof -
    fix i v assume "(i, v) \<in> set s"
    then have "i < length (rows f)" "v = rows f ! i ! ir" unfolding mem by simp_all
    then have "v \<in> set (map (\<lambda>r. r ! ir) (rows f))" using nth_mem [of i "rows f"] by auto
    with assms(5) show "numeric_cell v" by (auto simp: list_all_iff)
  qed
  have "first_max num_key s \<noteq> None"
  proof
    assume "first_max num_key s = None"
    from first_max_None [OF this hit] show False by simp
  qed
  then obtain p n where pn: "first_max num_key s = Some (p, n)"
    by (cases "first_max num_key s") auto
  from first_max_Some [OF _ pn] boolean_index_sorted
  have "\<exists>v. (p, v) \<in> set s \<and> num_key v = Some n"
    and best: "\<forall>i v m. (i, v) \<in> set s \<and> num_key v = Some m \<longrightarrow> m \<le> n \<and> (m = n \<longrightarrow> p \<le> i)"
    unfolding s_def by blast+
  then obtain v where "(p, v) \<in> set s" "num_key v = Some n" by blast
  then have in_s: "(p, PInt n) \<in> set s" using num [of p v] numeric_cell_PInt [of v n] by simp
  from in_s have p: "p < length (rows f)" "cell_eq (rows f ! p ! ia) ident"
    "rows f ! p ! ir = PInt n" unfolding mem by simp_all
  have "list_all (\<lambda>p. snd p = PNaN \<or> num_key (snd p) \<noteq> None) s"
    unfolding list_all_iff using num numeric_cell_key by fastforce
  then have idx: "idxmax s = Inr (Some p)"
    using ne pn unfolding idxmax_def by simp
  have il: "iloc f (Some p) = Inr (rows f ! p)" using p(1) by (simp add: iloc_def)
  have "match_by_review_status doc f = Inr (dict_update doc (normalized_row f (rows f ! p)))"
    unfolding match_by_review_status_def Let_def assms(3) get_column_index [OF assms(1)]
      get_column_index [OF assms(2)] series_eq_scalar [OF assms(4)] sum.case
      ords_def [symmetric] s_def [symmetric] idx il ..
  moreover have "\<forall>q m. q < length (rows f) \<and> cell_eq (rows f ! q ! ia) ident \<and>
      rows f ! q ! ir = PInt m \<longrightarrow> m \<le> n \<and> (m = n \<longrightarrow> p \<le> q)"
  proof (intro allI impI)
    fix q m
    assume "q < length (rows f) \<and> cell_eq (rows f ! q ! ia) ident \<and> rows f ! q ! ir = PInt m"
    then have "(q, PInt m) \<in> set s" unfolding mem by simp
    moreover have "num_key (PInt m) = Some m" by simp
    ultimately show "m \<le> n \<and> (m = n \<longrightarrow> p \<le> q)" using best by blast
  qed
  moreover have "distinct (map normalize_key (columns f)) \<longrightarrow>
      map_of (dict_update doc (normalized_row f (rows f ! p)))
        = map_of doc ++ map_of (zip (map normalize_key (columns f)) (rows f ! p))"
  proof
    assume d: "distinct (map normalize_key (columns f))"
    have z: "distinct (map fst (zip (map normalize_key (columns f)) (rows f ! p)))"
      using d by (rule distinct_fst_zip)
    then have "distinct (map fst (rev (zip (map normalize_key (columns f)) (rows f ! p))))"
      by (simp add: rev_map [symmetric])
    then have "map_of (rev (zip (map normalize_key (columns f)) (rows f ! p)))
        = map_of (zip (map normalize_key (columns f)) (rows f ! p))"
      using z by (intro map_of_inject_set [THEN iffD2]) simp_all
    then show "map_of (dict_update doc (normalized_row f (rows f ! p)))
        = map_of doc ++ map_of (zip (map normalize_key (columns f)) (rows f ! p))"
      by (simp add: map_of_dict_update normalized_row_distinct [OF d])
  qed
  ultimately show ?thesis using p by blast
qed

theorem latest_row_wins_witness:
  "match_by_review_status [(''_id'', PStr ''A1'')] ex_table
     = Inr [(''_id'', PStr ''A1''), (''row'', PInt 2), (''article_id'', PStr ''A1''),
            (''reference_id'', PStr ''R2''), (''status'', PStr ''approved''),
            (''date_completed'', PStr ''2021-08-01'')]"
proof -
  let ?doc = "[(''_id'', PStr ''A1'')]"
  have c: "column_index (columns ex_table) ''Article Id'' = Some 1"
    "column_index (columns ex_table) ''Row'' = Some 0"
    by (simp_all add: ex_table_def)
  have i: "map_of ?doc ''_id'' = Some (PStr ''A1'')" "\<not> is_list (PStr ''A1'')" by simp_all
  have n: "list_all numeric_cell (map (\<lambda>r. r ! 0) (rows ex_table))"
    by (simp add: ex_table_def)
  have h: "0 < length (rows ex_table)" "cell_eq (rows ex_table ! 0 ! 1) (PStr ''A1'')"
    "rows ex_table ! 0 ! 0 = PInt 1"
    by (simp_all add: ex_table_def)
  from latest_row_wins [OF c i n h] obtain p n where
    p: "p < length (rows ex_table)" "cell_eq (rows ex_table ! p ! 1) (PStr ''A1'')"
      "rows ex_table ! p ! 0 = PInt n"
    and best: "\<forall>q m. q < length (rows ex_table) \<and> cell_eq (rows ex_table ! q ! 1) (PStr ''A1'') \<and>
        rows ex_table ! q ! 0 = PInt m \<longrightarrow> m \<le> n \<and> (m = n \<longrightarrow> p \<le> q)"
    and r: "match_by_review_status ?doc ex_table
        = Inr (dict_update ?doc (normalized_row ex_table (rows ex_table ! p)))"
    by blast
  have "(1::nat) < length (rows ex_table) \<and> cell_eq (rows ex_table ! 1 ! 1) (PStr ''A1'') \<and>
      rows ex_table ! 1 ! 0 = PInt 2"
    by (simp add: ex_table_def)
  with best have "2 \<le> n" by blast
  moreover from p(1) have "p = 0 \<or> p = 1 \<or> p = 2" by (auto simp: ex_table_def)
  ultimately have "p = 1" using p(2,3) by (auto simp: ex_table_def)
  with r show ?thesis
    by (simp add: ex_table_def normalized_row_def to_dict_def dict_update_def normalize_key_def
        lower_char_def)
qed


lemma joiner_error_keeps_store:
  "match_by_review_status (dicts h doc_ref) (frames h table_ref) = Inl e \<Longrightarrow>
   match_by_review_status_store h doc_ref table_ref = (Inl e, h)"
  by (simp add: match_by_review_status_store_def)



end
